theory Spec2Isabelle
  imports Main "HOL-Library.Word"
begin

section \<open>Memory model of sample.c\<close>

text \<open>
  The program is a pointer-based binary search tree. A C \<open>int\<close> is a 32-bit word whose
  comparisons \<open><\<close> and \<open>>\<close> are the signed ones. A pointer is either \<open>NULL\<close>
  (\<open>None\<close>) or an address. The heap maps every live address to the \<open>struct Node\<close> stored
  there.
\<close>

type_synonym cint = "32 word"
type_synonym addr = nat
type_synonym ptr = "addr option"

record Node =
  data :: cint
  left :: ptr
  right :: ptr

text \<open>What \<open>printf\<close> has written: literal text, and integers formatted by \<open>%d\<close>.\<close>

datatype out_item = Txt string | Dec cint

text \<open>
  The state of the process. \<open>fresh\<close> is the allocator: the blocks that the coming calls of
  \<open>malloc\<close> will hand out, in that order, each with the indeterminate contents it holds at
  that moment. When the list is used up, \<open>malloc\<close> returns \<open>NULL\<close>.
\<close>

record state =
  heap :: "addr \<rightharpoonup> Node"
  fresh :: "(addr \<times> Node) list"
  out :: "out_item list"

text \<open>
  Undefined behaviour is a value: a dereference of \<open>NULL\<close>, or of an address that is not
  live. \<open>Timeout\<close> says that the recursion went deeper than the bound given as first argument
  of each recursive function.
\<close>

datatype fault = NullDeref | Dangling

datatype 'a result = Timeout | Fault fault | Done 'a

fun bind_r :: "'a result \<Rightarrow> ('a \<Rightarrow> 'b result) \<Rightarrow> 'b result" where
  "bind_r Timeout f = Timeout"
| "bind_r (Fault e) f = Fault e"
| "bind_r (Done x) f = f x"

definition malloc :: "state \<Rightarrow> ptr \<times> state" where
  "malloc s =
     (case fresh s of
        [] \<Rightarrow> (None, s)
      | (a, junk) # rest \<Rightarrow> (Some a, s\<lparr>heap := (heap s)(a \<mapsto> junk), fresh := rest\<rparr>))"

text \<open>Reading \<open>p->field\<close> loads the node at \<open>p\<close>; \<open>p->field = x\<close> stores into it.\<close>

definition load :: "ptr \<Rightarrow> state \<Rightarrow> Node result" where
  "load p s =
     (case p of
        None \<Rightarrow> Fault NullDeref
      | Some a \<Rightarrow> (case heap s a of None \<Rightarrow> Fault Dangling | Some n \<Rightarrow> Done n))"

definition store :: "ptr \<Rightarrow> (Node \<Rightarrow> Node) \<Rightarrow> state \<Rightarrow> state result" where
  "store p f s =
     (case p of
        None \<Rightarrow> Fault NullDeref
      | Some a \<Rightarrow>
          (case heap s a of
             None \<Rightarrow> Fault Dangling
           | Some n \<Rightarrow> Done (s\<lparr>heap := (heap s)(a \<mapsto> f n)\<rparr>)))"

text \<open>\<open>free(NULL)\<close> does nothing; freeing an address that is not live is undefined.\<close>

definition free_c :: "ptr \<Rightarrow> state \<Rightarrow> state result" where
  "free_c p s =
     (case p of
        None \<Rightarrow> Done s
      | Some a \<Rightarrow>
          (case heap s a of
             None \<Rightarrow> Fault Dangling
           | Some n \<Rightarrow> Done (s\<lparr>heap := (heap s)(a := None)\<rparr>)))"

text \<open>
  \<open>printf\<close> with its format string already split at the \<open>%d\<close> directives:
  \<open>printf("%d ", x)\<close> is \<open>printf [Dec x, Txt '' '']\<close>.
\<close>

definition printf :: "out_item list \<Rightarrow> state \<Rightarrow> state" where
  "printf items s = s\<lparr>out := out s @ items\<rparr>"

section \<open>The functions of sample.c\<close>

text \<open>\<open>createNode\<close>, lines 16 to 22: the result of \<open>malloc\<close> is used without a test.\<close>

definition createNode :: "cint \<Rightarrow> state \<Rightarrow> (ptr \<times> state) result" where
  "createNode v s =
     (case malloc s of
        (newNode, s0) \<Rightarrow>
          bind_r (store newNode (\<lambda>n. n\<lparr>data := v\<rparr>) s0) (\<lambda>s1.
          bind_r (store newNode (\<lambda>n. n\<lparr>left := None\<rparr>) s1) (\<lambda>s2.
          bind_r (store newNode (\<lambda>n. n\<lparr>right := None\<rparr>) s2) (\<lambda>s3.
          Done (newNode, s3)))))"

text \<open>\<open>insert\<close>, lines 25 to 37.\<close>

fun insert_node :: "nat \<Rightarrow> ptr \<Rightarrow> cint \<Rightarrow> state \<Rightarrow> (ptr \<times> state) result" where
  "insert_node 0 root v s = Timeout"
| "insert_node (Suc k) root v s =
     (if root = None then createNode v s
      else
        bind_r (load root s) (\<lambda>n.
          if v <s data n then
            bind_r (insert_node k (left n) v s) (\<lambda>(p, s1).
            bind_r (store root (\<lambda>m. m\<lparr>left := p\<rparr>) s1) (\<lambda>s2.
            Done (root, s2)))
          else if data n <s v then
            bind_r (insert_node k (right n) v s) (\<lambda>(p, s1).
            bind_r (store root (\<lambda>m. m\<lparr>right := p\<rparr>) s1) (\<lambda>s2.
            Done (root, s2)))
          else Done (root, s)))"

text \<open>\<open>search\<close>, lines 40 to 50. It reads the heap and leaves the state alone.\<close>

fun search :: "nat \<Rightarrow> ptr \<Rightarrow> cint \<Rightarrow> state \<Rightarrow> ptr result" where
  "search 0 root v s = Timeout"
| "search (Suc k) root v s =
     (if root = None then Done root
      else
        bind_r (load root s) (\<lambda>n.
          if data n = v then Done root
          else if v <s data n then search k (left n) v s
          else search k (right n) v s))"

text \<open>\<open>inorderTraversal\<close>, lines 53 to 61.\<close>

fun inorderTraversal :: "nat \<Rightarrow> ptr \<Rightarrow> state \<Rightarrow> state result" where
  "inorderTraversal 0 root s = Timeout"
| "inorderTraversal (Suc k) root s =
     (if root = None then Done s
      else
        bind_r (load root s) (\<lambda>n.
        bind_r (inorderTraversal k (left n) s) (\<lambda>s1.
        bind_r (load root s1) (\<lambda>n1.
        bind_r (load root (printf [Dec (data n1), Txt '' ''] s1)) (\<lambda>n2.
        inorderTraversal k (right n2) (printf [Dec (data n1), Txt '' ''] s1))))))"

text \<open>\<open>freeTree\<close>, lines 64 to 72.\<close>

fun freeTree :: "nat \<Rightarrow> ptr \<Rightarrow> state \<Rightarrow> state result" where
  "freeTree 0 root s = Timeout"
| "freeTree (Suc k) root s =
     (if root = None then Done s
      else
        bind_r (load root s) (\<lambda>n.
        bind_r (freeTree k (left n) s) (\<lambda>s1.
        bind_r (load root s1) (\<lambda>n1.
        bind_r (freeTree k (right n1) s1) (\<lambda>s2.
        free_c root s2)))))"

text \<open>
  \<open>main\<close>, lines 74 to 104. Only the first call of \<open>insert\<close> assigns its result to
  \<open>root\<close>; the six others drop it. \<open>main_build\<close> is the part up to line 84.
\<close>

definition main_build :: "nat \<Rightarrow> state \<Rightarrow> (ptr \<times> state) result" where
  "main_build k s =
     bind_r (insert_node k None 50 s) (\<lambda>(root, s1).
     bind_r (insert_node k root 30 s1) (\<lambda>(_, s2).
     bind_r (insert_node k root 70 s2) (\<lambda>(_, s3).
     bind_r (insert_node k root 20 s3) (\<lambda>(_, s4).
     bind_r (insert_node k root 40 s4) (\<lambda>(_, s5).
     bind_r (insert_node k root 60 s5) (\<lambda>(_, s6).
     bind_r (insert_node k root 80 s6) (\<lambda>(_, s7).
     Done (root, s7))))))))"

definition main :: "nat \<Rightarrow> state \<Rightarrow> (cint \<times> state) result" where
  "main k s =
     bind_r (main_build k s) (\<lambda>(root, s1).
     bind_r (inorderTraversal k root (printf [Txt ''BST in-order traversal: ''] s1)) (\<lambda>s2.
     bind_r (search k root 40 (printf [Txt [CHR 0x0A]] s2)) (\<lambda>res.
     bind_r (freeTree k root
        (if res \<noteq> None
         then printf [Txt ''Value '', Dec 40, Txt ('' found in the BST.'' @ [CHR 0x0A])]
                (printf [Txt [CHR 0x0A]] s2)
         else printf [Txt ''Value '', Dec 40, Txt ('' not found in the BST.'' @ [CHR 0x0A])]
                (printf [Txt [CHR 0x0A]] s2))) (\<lambda>s3.
     Done (0, s3)))))"

text \<open>
  A caller that keeps the result, as the first call in \<open>main\<close> does: the values of a list
  are inserted one after the other, each into the tree the call before returned.
\<close>

fun insert_all :: "nat \<Rightarrow> ptr \<Rightarrow> cint list \<Rightarrow> state \<Rightarrow> (ptr \<times> state) result" where
  "insert_all k root [] s = Done (root, s)"
| "insert_all k root (v # vs) s =
     bind_r (insert_node k root v s) (\<lambda>(root', s'). insert_all k root' vs s')"

section \<open>Trees in the heap\<close>

text \<open>
  The shape of a tree that lies in the heap: at every node the address it occupies and the
  value it holds. \<open>heap_tree h p t\<close> says that following \<open>left\<close> and \<open>right\<close> from the
  pointer \<open>p\<close> in the heap \<open>h\<close> walks exactly the shape \<open>t\<close>, a \<open>NULL\<close> at every \<open>Tip\<close>.
  When the addresses of \<open>t\<close> are also distinct, no node is shared or reached twice:
  \<open>is_tree\<close>.
\<close>

datatype shape = Tip | Br addr shape cint shape

fun addrs :: "shape \<Rightarrow> addr list" where
  "addrs Tip = []"
| "addrs (Br a l x r) = addrs l @ a # addrs r"

fun vals :: "shape \<Rightarrow> cint list" where
  "vals Tip = []"
| "vals (Br a l x r) = vals l @ x # vals r"

fun height :: "shape \<Rightarrow> nat" where
  "height Tip = 0"
| "height (Br a l x r) = Suc (max (height l) (height r))"

fun root_ptr :: "shape \<Rightarrow> ptr" where
  "root_ptr Tip = None"
| "root_ptr (Br a l x r) = Some a"

fun heap_tree :: "(addr \<rightharpoonup> Node) \<Rightarrow> ptr \<Rightarrow> shape \<Rightarrow> bool" where
  "heap_tree h p Tip = (p = None)"
| "heap_tree h p (Br a l x r) =
     (p = Some a \<and>
      (case h a of
         None \<Rightarrow> False
       | Some n \<Rightarrow> data n = x \<and> heap_tree h (left n) l \<and> heap_tree h (right n) r))"

definition is_tree :: "(addr \<rightharpoonup> Node) \<Rightarrow> ptr \<Rightarrow> shape \<Rightarrow> bool" where
  "is_tree h p t = (heap_tree h p t \<and> distinct (addrs t))"

text \<open>
  The invariant of section 3 of the specification: at every node, the values of the left
  subtree are below the node's value and those of the right subtree above it, in the signed
  order of \<open>int\<close>.
\<close>

fun bst :: "shape \<Rightarrow> bool" where
  "bst Tip = True"
| "bst (Br a l x r) =
     (list_all (\<lambda>y. y <s x) (vals l) \<and> list_all (\<lambda>y. x <s y) (vals r) \<and> bst l \<and> bst r)"

text \<open>
  What \<open>insert\<close> and \<open>search\<close> do to a shape: \<open>ins a' v t\<close> hangs a node at the fresh
  address \<open>a'\<close> where the descent for \<open>v\<close> leaves \<open>t\<close>, and \<open>find_ptr v t\<close> is the
  address of the node at which the descent for \<open>v\<close> stops.
\<close>

fun ins :: "addr \<Rightarrow> cint \<Rightarrow> shape \<Rightarrow> shape" where
  "ins a' v Tip = Br a' Tip v Tip"
| "ins a' v (Br a l x r) =
     (if v <s x then Br a (ins a' v l) x r
      else if x <s v then Br a l x (ins a' v r)
      else Br a l x r)"

fun find_ptr :: "cint \<Rightarrow> shape \<Rightarrow> ptr" where
  "find_ptr v Tip = None"
| "find_ptr v (Br a l x r) =
     (if x = v then Some a
      else if v <s x then find_ptr v l
      else find_ptr v r)"

text \<open>The items that one traversal prints for a list of values.\<close>

fun printed :: "cint list \<Rightarrow> out_item list" where
  "printed [] = []"
| "printed (x # xs) = Dec x # Txt '' '' # printed xs"

text \<open>
  Example states. \<open>boot as\<close> is a process at its start: nothing is live, and the allocator
  holds one block at each address of \<open>as\<close>, filled with garbage. \<open>demo\<close> holds the tree
  with 5 at the root and 3 as its left child, and one block is left to allocate.
\<close>

definition junk :: Node where
  "junk = \<lparr>data = 7, left = Some 9, right = Some 9\<rparr>"

definition boot :: "addr list \<Rightarrow> state" where
  "boot as = \<lparr>heap = Map.empty, fresh = map (\<lambda>a. (a, junk)) as, out = []\<rparr>"

definition demo :: state where
  "demo = \<lparr>heap = [1 \<mapsto> \<lparr>data = 5, left = Some 2, right = None\<rparr>,
                   2 \<mapsto> \<lparr>data = 3, left = None, right = None\<rparr>],
            fresh = [(3, junk)], out = []\<rparr>"

definition demo_shape :: shape where
  "demo_shape = Br 1 (Br 2 Tip 3 Tip) 5 Tip"

section \<open>Memory accesses and allocation\<close>

lemma load_live: "heap s a = Some n \<Longrightarrow> load (Some a) s = Done n"
  by (simp add: load_def)

lemma store_live: "heap s a = Some n \<Longrightarrow> store (Some a) f s = Done (s\<lparr>heap := (heap s)(a \<mapsto> f n)\<rparr>)"
  by (simp add: store_def)

lemma createNode_fresh:
  "fresh s = (a, j) # rest \<Longrightarrow>
   createNode v s = Done (Some a, s\<lparr>heap := (heap s)(a \<mapsto> \<lparr>data = v, left = None, right = None\<rparr>), fresh := rest\<rparr>)"
  by (cases j) (simp add: createNode_def malloc_def store_def)

lemma createNode_exhausted: "fresh s = [] \<Longrightarrow> createNode v s = Fault NullDeref"
  by (simp add: createNode_def malloc_def store_def)

lemma heap_tree_frame:
  "heap_tree h p t \<Longrightarrow> (\<And>a. a \<in> set (addrs t) \<Longrightarrow> h' a = h a) \<Longrightarrow> heap_tree h' p t"
  by (induction t arbitrary: p) (auto split: option.splits)

lemma heap_tree_root: "heap_tree h p t \<Longrightarrow> p = root_ptr t"
  by (cases t) auto

lemma printed_append: "printed (xs @ ys) = printed xs @ printed ys"
  by (induction xs) auto

lemma insert_node_hit:
  "heap_tree (heap s) p t \<Longrightarrow> find_ptr v t \<noteq> None \<Longrightarrow> height t < k \<Longrightarrow>
   insert_node k p v s = Done (p, s)"
proof (induction t arbitrary: k p)
  case Tip
  then show ?case by simp
next
  case (Br a l x r)
  from Br.prems(3) obtain k' where k: "k = Suc k'" "height l < k'" "height r < k'"
    by (cases k) auto
  from Br.prems(1) obtain n where n: "p = Some a" "heap s a = Some n" "data n = x"
    "heap_tree (heap s) (left n) l" "heap_tree (heap s) (right n) r"
    by (auto split: option.splits)
  show ?case
  proof (cases "v <s x")
    case True
    with Br.prems(2) have "find_ptr v l \<noteq> None" by (auto split: if_splits)
    from Br.IH(1)[OF n(4) this k(2)] True n show ?thesis
      by (simp add: k load_live store_live map_upd_triv)
  next
    case False
    show ?thesis
    proof (cases "x <s v")
      case True
      with Br.prems(2) \<open>\<not> v <s x\<close> have "find_ptr v r \<noteq> None" by (auto split: if_splits)
      from Br.IH(2)[OF n(5) this k(3)] True False n show ?thesis
        by (simp add: k load_live store_live map_upd_triv)
    next
      case False
      with \<open>\<not> v <s x\<close> n show ?thesis by (simp add: k load_live)
    qed
  qed
qed

lemma set_addrs_ins: "set (addrs (ins a' v t)) \<subseteq> insert a' (set (addrs t))"
  by (induction t) auto

lemma signed_cases: "\<not> v <s x \<Longrightarrow> x \<noteq> v \<Longrightarrow> x <s (v::cint)"
  using signed.less_linear by blast

lemma insert_node_miss:
  "heap_tree (heap s) p t \<Longrightarrow> distinct (addrs t) \<Longrightarrow> find_ptr v t = None \<Longrightarrow>
   fresh s = (a', j) # rest \<Longrightarrow> a' \<notin> set (addrs t) \<Longrightarrow> height t < k \<Longrightarrow>
   \<exists>s'. insert_node k p v s = Done (root_ptr (ins a' v t), s') \<and>
        heap_tree (heap s') (root_ptr (ins a' v t)) (ins a' v t) \<and>
        fresh s' = rest \<and> out s' = out s \<and>
        (\<forall>b. b \<notin> set (addrs t) \<and> b \<noteq> a' \<longrightarrow> heap s' b = heap s b) \<and>
        (\<forall>b n. heap s b = Some n \<and> b \<noteq> a' \<longrightarrow> (\<exists>n'. heap s' b = Some n' \<and> data n' = data n))"
proof (induction t arbitrary: k p)
  case Tip
  then obtain k' where "k = Suc k'" by (cases k) auto
  with Tip show ?case by (simp add: createNode_fresh)
next
  case (Br a l x r)
  from Br.prems(6) obtain k' where k: "k = Suc k'" "height l < k'" "height r < k'"
    by (cases k) auto
  from Br.prems(1) obtain n where n: "p = Some a" "heap s a = Some n" "data n = x"
    "heap_tree (heap s) (left n) l" "heap_tree (heap s) (right n) r"
    by (auto split: option.splits)
  from Br.prems(3) have neq: "x \<noteq> v" by (auto split: if_splits)
  from Br.prems(2) have dist: "distinct (addrs l)" "distinct (addrs r)" "a \<notin> set (addrs l)"
    "a \<notin> set (addrs r)" "set (addrs l) \<inter> set (addrs r) = {}" by auto
  from Br.prems(5) have a': "a' \<noteq> a" "a' \<notin> set (addrs l)" "a' \<notin> set (addrs r)" by auto
  show ?case
  proof (cases "v <s x")
    case True
    with Br.prems(3) neq have "find_ptr v l = None" by simp
    from Br.IH(1)[OF n(4) dist(1) this Br.prems(4) a'(2) k(2)]
    obtain s1 where s1: "insert_node k' (left n) v s = Done (root_ptr (ins a' v l), s1)"
      "heap_tree (heap s1) (root_ptr (ins a' v l)) (ins a' v l)"
      "fresh s1 = rest" "out s1 = out s"
      "\<And>b. b \<notin> set (addrs l) \<Longrightarrow> b \<noteq> a' \<Longrightarrow> heap s1 b = heap s b"
      "\<And>b n. heap s b = Some n \<Longrightarrow> b \<noteq> a' \<Longrightarrow> \<exists>n'. heap s1 b = Some n' \<and> data n' = data n"
      by blast
    let ?pl = "root_ptr (ins a' v l)"
    let ?s2 = "s1\<lparr>heap := (heap s1)(a \<mapsto> n\<lparr>left := ?pl\<rparr>)\<rparr>"
    have live: "heap s1 a = Some n" using s1(5)[of a] dist(3) a'(1) n(2) by simp
    have run: "insert_node k p v s = Done (Some a, ?s2)"
      using True n s1(1) live by (simp add: k load_live store_live)
    have tl: "heap_tree (heap ?s2) ?pl (ins a' v l)"
    proof (rule heap_tree_frame[OF s1(2)])
      fix b assume "b \<in> set (addrs (ins a' v l))"
      with set_addrs_ins[of a' v l] dist(3) a'(1) have "b \<noteq> a" by auto
      then show "heap ?s2 b = heap s1 b" by simp
    qed
    have tr: "heap_tree (heap ?s2) (right n) r"
    proof (rule heap_tree_frame[OF n(5)])
      fix b assume b: "b \<in> set (addrs r)"
      with dist a' have "b \<noteq> a" "b \<notin> set (addrs l)" "b \<noteq> a'" by auto
      then show "heap ?s2 b = heap s b" using s1(5)[of b] by simp
    qed
    have fr: "\<forall>b. b \<notin> set (addrs (Br a l x r)) \<and> b \<noteq> a' \<longrightarrow> heap ?s2 b = heap s b"
      using s1(5) by auto
    have dt: "\<forall>b m. heap s b = Some m \<and> b \<noteq> a' \<longrightarrow> (\<exists>n'. heap ?s2 b = Some n' \<and> data n' = data m)"
      using s1(6) n(2) by auto
    have whole: "heap_tree (heap ?s2) (Some a) (Br a (ins a' v l) x r)"
      using tl tr n(3) by simp
    have "insert_node k p v s = Done (root_ptr (ins a' v (Br a l x r)), ?s2)"
      "heap_tree (heap ?s2) (root_ptr (ins a' v (Br a l x r))) (ins a' v (Br a l x r))"
      "fresh ?s2 = rest" "out ?s2 = out s"
      using True run whole s1(3,4) by simp_all
    with fr dt show ?thesis by blast
  next
    case False
    from False neq have gt: "x <s v" by (rule signed_cases)
    from Br.prems(3) neq False have "find_ptr v r = None" by simp
    from Br.IH(2)[OF n(5) dist(2) this Br.prems(4) a'(3) k(3)]
    obtain s1 where s1: "insert_node k' (right n) v s = Done (root_ptr (ins a' v r), s1)"
      "heap_tree (heap s1) (root_ptr (ins a' v r)) (ins a' v r)"
      "fresh s1 = rest" "out s1 = out s"
      "\<And>b. b \<notin> set (addrs r) \<Longrightarrow> b \<noteq> a' \<Longrightarrow> heap s1 b = heap s b"
      "\<And>b n. heap s b = Some n \<Longrightarrow> b \<noteq> a' \<Longrightarrow> \<exists>n'. heap s1 b = Some n' \<and> data n' = data n"
      by blast
    let ?pr = "root_ptr (ins a' v r)"
    let ?s2 = "s1\<lparr>heap := (heap s1)(a \<mapsto> n\<lparr>right := ?pr\<rparr>)\<rparr>"
    have live: "heap s1 a = Some n" using s1(5)[of a] dist(4) a'(1) n(2) by simp
    have run: "insert_node k p v s = Done (Some a, ?s2)"
      using False gt n s1(1) live by (simp add: k load_live store_live)
    have tr: "heap_tree (heap ?s2) ?pr (ins a' v r)"
    proof (rule heap_tree_frame[OF s1(2)])
      fix b assume "b \<in> set (addrs (ins a' v r))"
      with set_addrs_ins[of a' v r] dist(4) a'(1) have "b \<noteq> a" by auto
      then show "heap ?s2 b = heap s1 b" by simp
    qed
    have tl: "heap_tree (heap ?s2) (left n) l"
    proof (rule heap_tree_frame[OF n(4)])
      fix b assume b: "b \<in> set (addrs l)"
      with dist a' have "b \<noteq> a" "b \<notin> set (addrs r)" "b \<noteq> a'" by auto
      then show "heap ?s2 b = heap s b" using s1(5)[of b] by simp
    qed
    have fr: "\<forall>b. b \<notin> set (addrs (Br a l x r)) \<and> b \<noteq> a' \<longrightarrow> heap ?s2 b = heap s b"
      using s1(5) by auto
    have dt: "\<forall>b m. heap s b = Some m \<and> b \<noteq> a' \<longrightarrow> (\<exists>n'. heap ?s2 b = Some n' \<and> data n' = data m)"
      using s1(6) n(2) by auto
    have whole: "heap_tree (heap ?s2) (Some a) (Br a l x (ins a' v r))"
      using tl tr n(3) by simp
    have "insert_node k p v s = Done (root_ptr (ins a' v (Br a l x r)), ?s2)"
      "heap_tree (heap ?s2) (root_ptr (ins a' v (Br a l x r))) (ins a' v (Br a l x r))"
      "fresh ?s2 = rest" "out ?s2 = out s"
      using False gt run whole s1(3,4) by simp_all
    with fr dt show ?thesis by blast
  qed
qed

section \<open>Search, traversal and release against the shape\<close>

lemma search_find_ptr:
  "heap_tree (heap s) p t \<Longrightarrow> height t < k \<Longrightarrow> search k p v s = Done (find_ptr v t)"
proof (induction t arbitrary: k p)
  case Tip
  then show ?case by (cases k) auto
next
  case (Br a l x r)
  from Br.prems(2) obtain k' where k: "k = Suc k'" "height l < k'" "height r < k'"
    by (cases k) auto
  from Br.prems(1) obtain n where n: "p = Some a" "heap s a = Some n" "data n = x"
    "heap_tree (heap s) (left n) l" "heap_tree (heap s) (right n) r"
    by (auto split: option.splits)
  from Br.IH(1)[OF n(4) k(2)] Br.IH(2)[OF n(5) k(3)] n(1,2,3) show ?case
    by (simp add: k load_live)
qed

lemma find_ptr_live:
  "heap_tree h p t \<Longrightarrow> find_ptr v t = Some a \<Longrightarrow> \<exists>n. h a = Some n \<and> data n = v"
  by (induction t arbitrary: p) (auto split: option.splits if_splits)

lemma find_ptr_bst: "bst t \<Longrightarrow> (find_ptr v t \<noteq> None) = (v \<in> set (vals t))"
proof (induction t)
  case Tip
  then show ?case by simp
next
  case (Br a l x r)
  then have lo: "\<And>y. y \<in> set (vals l) \<Longrightarrow> y <s x" and hi: "\<And>y. y \<in> set (vals r) \<Longrightarrow> x <s y"
    and IH: "(find_ptr v l \<noteq> None) = (v \<in> set (vals l))" "(find_ptr v r \<noteq> None) = (v \<in> set (vals r))"
    by (auto simp: list_all_iff)
  show ?case
  proof (cases "x = v")
    case True
    then show ?thesis by simp
  next
    case neq: False
    show ?thesis
    proof (cases "v <s x")
      case True
      then have "v \<notin> set (vals r)" using hi signed.less_asym by blast
      with True neq IH(1) show ?thesis by auto
    next
      case False
      then have "v \<notin> set (vals l)" using lo by blast
      with False neq IH(2) show ?thesis by auto
    qed
  qed
qed

lemma inorderTraversal_vals:
  "heap_tree (heap s) p t \<Longrightarrow> height t < k \<Longrightarrow>
   inorderTraversal k p s = Done (s\<lparr>out := out s @ printed (vals t)\<rparr>)"
proof (induction t arbitrary: k p s)
  case Tip
  then show ?case by (cases k) auto
next
  case (Br a l x r)
  from Br.prems(2) obtain k' where k: "k = Suc k'" "height l < k'" "height r < k'"
    by (cases k) auto
  from Br.prems(1) obtain n where n: "p = Some a" "heap s a = Some n" "data n = x"
    "heap_tree (heap s) (left n) l" "heap_tree (heap s) (right n) r"
    by (auto split: option.splits)
  let ?s1 = "s\<lparr>out := out s @ printed (vals l)\<rparr>"
  let ?s2 = "printf [Dec x, Txt '' ''] ?s1"
  have h2: "heap ?s2 = heap s" by (simp add: printf_def)
  have l: "inorderTraversal k' (left n) s = Done ?s1" by (rule Br.IH(1)[OF n(4) k(2)])
  have "heap_tree (heap ?s2) (right n) r" using n(5) h2 by simp
  from Br.IH(2)[OF this k(3)]
  have r: "inorderTraversal k' (right n) ?s2 = Done (?s2\<lparr>out := out ?s2 @ printed (vals r)\<rparr>)" .
  have "load (Some a) ?s1 = Done n" "load (Some a) ?s2 = Done n"
    using n(2) by (simp_all add: load_def printf_def)
  with l r n(1,2,3) show ?case
    by (simp add: k load_live printed_append printf_def)
qed

lemma freeTree_frees:
  "heap_tree (heap s) p t \<Longrightarrow> distinct (addrs t) \<Longrightarrow> height t < k \<Longrightarrow>
   freeTree k p s = Done (s\<lparr>heap := (\<lambda>b. if b \<in> set (addrs t) then None else heap s b)\<rparr>)"
proof (induction t arbitrary: k p s)
  case Tip
  then show ?case by (cases k) auto
next
  case (Br a l x r)
  from Br.prems(3) obtain k' where k: "k = Suc k'" "height l < k'" "height r < k'"
    by (cases k) auto
  from Br.prems(1) obtain n where n: "p = Some a" "heap s a = Some n" "data n = x"
    "heap_tree (heap s) (left n) l" "heap_tree (heap s) (right n) r"
    by (auto split: option.splits)
  from Br.prems(2) have dist: "distinct (addrs l)" "distinct (addrs r)" "a \<notin> set (addrs l)"
    "a \<notin> set (addrs r)" "set (addrs l) \<inter> set (addrs r) = {}" by auto
  let ?s1 = "s\<lparr>heap := (\<lambda>b. if b \<in> set (addrs l) then None else heap s b)\<rparr>"
  let ?s2 = "?s1\<lparr>heap := (\<lambda>b. if b \<in> set (addrs r) then None else heap ?s1 b)\<rparr>"
  have l: "freeTree k' (left n) s = Done ?s1" by (rule Br.IH(1)[OF n(4) dist(1) k(2)])
  have live1: "heap ?s1 a = Some n" using n(2) dist(3) by simp
  have "heap_tree (heap ?s1) (right n) r"
    by (rule heap_tree_frame[OF n(5)]) (use dist(5) in auto)
  from Br.IH(2)[OF this dist(2) k(3)] have r: "freeTree k' (right n) ?s1 = Done ?s2" .
  have live2: "heap ?s2 a = Some n" using n(2) dist(3,4) by simp
  have fin: "free_c (Some a) ?s2 = Done (?s2\<lparr>heap := (heap ?s2)(a := None)\<rparr>)"
    using live2 by (simp add: free_c_def)
  have eq: "?s2\<lparr>heap := (heap ?s2)(a := None)\<rparr>
        = s\<lparr>heap := (\<lambda>b. if b \<in> set (addrs (Br a l x r)) then None else heap s b)\<rparr>"
    by (auto simp: fun_eq_iff)
  from l r live1 n(1,2) fin eq show ?case
    by (simp add: k load_live del: addrs.simps)
qed

section \<open>Insertion against the shape\<close>

lemma set_vals_ins: "set (vals (ins a' v t)) = insert v (set (vals t))"
proof (induction t)
  case Tip
  then show ?case by simp
next
  case (Br a l x r)
  have "\<not> v <s x \<Longrightarrow> \<not> x <s v \<Longrightarrow> x = v"
    using signed.less_linear by blast
  with Br show ?case by auto
qed

lemma bst_ins: "bst t \<Longrightarrow> bst (ins a' v t)"
  by (induction t) (auto simp: list_all_iff set_vals_ins)

lemma bst_sorted: "bst t \<Longrightarrow> sorted_wrt (<s) (vals t)"
proof (induction t)
  case Tip
  then show ?case by simp
next
  case (Br a l x r)
  then have lo: "\<forall>y\<in>set (vals l). y <s x" and hi: "\<forall>y\<in>set (vals r). x <s y"
    and srt: "sorted_wrt (<s) (vals l)" "sorted_wrt (<s) (vals r)"
    by (auto simp: list_all_iff)
  from lo hi have "\<forall>y\<in>set (vals l). \<forall>z\<in>set (vals r). y <s z"
    using signed.less_trans by blast
  with lo hi srt show ?case by (auto simp: sorted_wrt_append)
qed

lemma ins_hit: "find_ptr v t \<noteq> None \<Longrightarrow> ins a' v t = t"
proof (induction t)
  case Tip
  then show ?case by simp
next
  case (Br a l x r)
  show ?case
  proof (cases "x = v")
    case True
    then show ?thesis by simp
  next
    case False
    with Br show ?thesis by (auto dest: signed.less_asym)
  qed
qed

lemma find_ptr_ins: "find_ptr v (ins a' v t) \<noteq> None"
proof (induction t)
  case Tip
  then show ?case by simp
next
  case (Br a l x r)
  then show ?case by (auto dest: signed.less_asym)
qed

lemma addrs_ins_miss:
  "find_ptr v t = None \<Longrightarrow> set (addrs (ins a' v t)) = insert a' (set (addrs t))"
proof (induction t)
  case Tip
  then show ?case by simp
next
  case (Br a l x r)
  from Br.prems have "x \<noteq> v" by (auto split: if_splits)
  with Br show ?case by (auto split: if_splits dest: signed_cases)
qed

lemma distinct_addrs_ins:
  "distinct (addrs t) \<Longrightarrow> a' \<notin> set (addrs t) \<Longrightarrow> distinct (addrs (ins a' v t))"
proof (induction t)
  case Tip
  then show ?case by simp
next
  case (Br a l x r)
  then show ?case using set_addrs_ins[of a' v l] set_addrs_ins[of a' v r] by auto
qed

lemma length_addrs_ins: "length (addrs (ins a' v t)) \<le> Suc (length (addrs t))"
  by (induction t) auto

lemma height_le_nodes: "height t \<le> length (addrs t)"
  by (induction t) auto

text \<open>One call of insert on a tree, whether the value is met on the way down or not.\<close>

lemma insert_node_tree:
  assumes "is_tree (heap s) p t" "fresh s = (a', j) # rest" "a' \<notin> set (addrs t)" "height t < k"
  shows "\<exists>s'. insert_node k p v s = Done (root_ptr (ins a' v t), s') \<and>
          is_tree (heap s') (root_ptr (ins a' v t)) (ins a' v t) \<and>
          out s' = out s \<and>
          fresh s' = (if find_ptr v t = None then rest else fresh s) \<and>
          (find_ptr v t \<noteq> None \<longrightarrow> s' = s) \<and>
          (\<forall>b. b \<notin> set (addrs t) \<and> b \<noteq> a' \<longrightarrow> heap s' b = heap s b) \<and>
          (\<forall>b n. heap s b = Some n \<and> b \<noteq> a' \<longrightarrow> (\<exists>n'. heap s' b = Some n' \<and> data n' = data n))"
proof (cases "find_ptr v t = None")
  case True
  from assms have ht: "heap_tree (heap s) p t" and d: "distinct (addrs t)"
    by (simp_all add: is_tree_def)
  from insert_node_miss[OF ht d True assms(2) assms(3) assms(4)]
  obtain s' where s': "insert_node k p v s = Done (root_ptr (ins a' v t), s')"
    "heap_tree (heap s') (root_ptr (ins a' v t)) (ins a' v t)"
    "fresh s' = rest" "out s' = out s"
    "\<forall>b. b \<notin> set (addrs t) \<and> b \<noteq> a' \<longrightarrow> heap s' b = heap s b"
    "\<forall>b n. heap s b = Some n \<and> b \<noteq> a' \<longrightarrow> (\<exists>n'. heap s' b = Some n' \<and> data n' = data n)"
    by blast
  have "is_tree (heap s') (root_ptr (ins a' v t)) (ins a' v t)"
    using s'(2) distinct_addrs_ins[OF d assms(3)] by (simp add: is_tree_def)
  with s' True show ?thesis by auto
next
  case False
  from assms have ht: "heap_tree (heap s) p t" by (simp add: is_tree_def)
  have same: "ins a' v t = t" using False by (rule ins_hit)
  have p: "p = root_ptr t" using ht by (rule heap_tree_root)
  have "insert_node k p v s = Done (p, s)" using ht False assms(4) by (rule insert_node_hit)
  with False same p assms(1) show ?thesis by auto
qed

section \<open>Insertion on any heap\<close>

lemma bind_r_Done: "(bind_r m f = Done y) = (\<exists>x. m = Done x \<and> f x = Done y)"
  by (cases m) auto

lemma store_Done: "store p f s = Done s' \<Longrightarrow>
  \<exists>a n. p = Some a \<and> heap s a = Some n \<and> s' = s\<lparr>heap := (heap s)(a \<mapsto> f n)\<rparr>"
  by (auto simp: store_def split: option.splits)

lemma createNode_Done: "createNode v s = Done (p', s') \<Longrightarrow>
  \<exists>a j rest. fresh s = (a, j) # rest \<and> p' = Some a \<and>
     s' = s\<lparr>heap := (heap s)(a \<mapsto> \<lparr>data = v, left = None, right = None\<rparr>), fresh := rest\<rparr>"
proof (cases "fresh s")
  case Nil
  assume "createNode v s = Done (p', s')"
  with Nil show ?thesis by (simp add: createNode_exhausted)
next
  case (Cons c rest)
  assume "createNode v s = Done (p', s')"
  with Cons show ?thesis by (cases c) (auto simp: createNode_fresh)
qed

lemma insert_node_live:
  "insert_node k p v s = Done (p', s') \<Longrightarrow> heap s b \<noteq> None \<Longrightarrow> heap s' b \<noteq> None"
proof (induction k arbitrary: p p' s s')
  case 0
  then show ?case by simp
next
  case (Suc k)
  show ?case
  proof (cases p)
    case None
    with Suc.prems(1) have "createNode v s = Done (p', s')" by simp
    from createNode_Done[OF this] Suc.prems(2) show ?thesis by auto
  next
    case (Some a)
    with Suc.prems(1) obtain n where n: "load (Some a) s = Done n"
      and body: "(if v <s data n then
            bind_r (insert_node k (left n) v s) (\<lambda>(p1, s1).
            bind_r (store (Some a) (\<lambda>m. m\<lparr>left := p1\<rparr>) s1) (\<lambda>s2. Done (Some a, s2)))
          else if data n <s v then
            bind_r (insert_node k (right n) v s) (\<lambda>(p1, s1).
            bind_r (store (Some a) (\<lambda>m. m\<lparr>right := p1\<rparr>) s1) (\<lambda>s2. Done (Some a, s2)))
          else Done (Some a, s)) = Done (p', s')"
      by (auto simp: bind_r_Done)
    show ?thesis
    proof (cases "v <s data n")
      case True
      with body obtain p1 s1 where c: "insert_node k (left n) v s = Done (p1, s1)"
        and st: "store (Some a) (\<lambda>m. m\<lparr>left := p1\<rparr>) s1 = Done s'"
        by (auto simp: bind_r_Done)
      from Suc.IH[OF c Suc.prems(2)] store_Done[OF st] show ?thesis by auto
    next
      case False
      show ?thesis
      proof (cases "data n <s v")
        case True
        with False body obtain p1 s1 where c: "insert_node k (right n) v s = Done (p1, s1)"
          and st: "store (Some a) (\<lambda>m. m\<lparr>right := p1\<rparr>) s1 = Done s'"
          by (auto simp: bind_r_Done)
        from Suc.IH[OF c Suc.prems(2)] store_Done[OF st] show ?thesis by auto
      next
        case nogt: False
        with False body Suc.prems(2) show ?thesis by simp
      qed
    qed
  qed
qed

lemma insert_node_root: "insert_node k (Some a) v s = Done (p', s') \<Longrightarrow> p' = Some a"
  by (cases k) (auto simp: bind_r_Done split: if_splits)

lemma insert_node_returns:
  "heap_tree (heap s) p t \<Longrightarrow> height t < k \<Longrightarrow>
   (\<exists>r. insert_node k p v s = Done r) \<or> (insert_node k p v s = Fault NullDeref \<and> fresh s = [])"
proof (induction t arbitrary: k p)
  case Tip
  then obtain k' where "k = Suc k'" by (cases k) auto
  with Tip show ?case
    by (cases "fresh s") (auto simp: createNode_fresh createNode_exhausted)
next
  case (Br a l x r)
  from Br.prems(2) obtain k' where k: "k = Suc k'" "height l < k'" "height r < k'"
    by (cases k) auto
  from Br.prems(1) obtain n where n: "p = Some a" "heap s a = Some n" "data n = x"
    "heap_tree (heap s) (left n) l" "heap_tree (heap s) (right n) r"
    by (auto split: option.splits)
  have sub: "(\<exists>r. insert_node k' q v s = Done r) \<or>
      (insert_node k' q v s = Fault NullDeref \<and> fresh s = []) \<Longrightarrow>
      (\<exists>r. bind_r (insert_node k' q v s) (\<lambda>(p1, s1).
            bind_r (store (Some a) (f p1) s1) (\<lambda>s2. Done (Some a, s2))) = Done r) \<or>
      (bind_r (insert_node k' q v s) (\<lambda>(p1, s1).
            bind_r (store (Some a) (f p1) s1) (\<lambda>s2. Done (Some a, s2))) = Fault NullDeref
       \<and> fresh s = [])" for q f
  proof (erule disjE)
    assume "\<exists>r. insert_node k' q v s = Done r"
    then obtain p1 s1 where c: "insert_node k' q v s = Done (p1, s1)" by auto
    from insert_node_live[OF c, of a] n(2) obtain m where "heap s1 a = Some m" by auto
    with c show ?thesis by (simp add: store_live)
  next
    assume "insert_node k' q v s = Fault NullDeref \<and> fresh s = []"
    then show ?thesis by simp
  qed
  show ?case
  proof (cases "v <s x")
    case True
    from sub[OF Br.IH(1)[OF n(4) k(2)], of "\<lambda>p1 m. m\<lparr>left := p1\<rparr>"] True n(1,2,3)
    show ?thesis by (simp add: k load_live)
  next
    case False
    show ?thesis
    proof (cases "x <s v")
      case True
      from sub[OF Br.IH(2)[OF n(5) k(3)], of "\<lambda>p1 m. m\<lparr>right := p1\<rparr>"] True False n(1,2,3)
      show ?thesis by (simp add: k load_live)
    next
      case nogt: False
      with False n(1,2,3) show ?thesis by (simp add: k load_live)
    qed
  qed
qed

lemma height_ins: "height (ins a' v t) \<le> Suc (height t)"
  by (induction t) auto

lemma insert_node_miss_exhausted:
  "heap_tree (heap s) p t \<Longrightarrow> find_ptr v t = None \<Longrightarrow> fresh s = [] \<Longrightarrow> height t < k \<Longrightarrow>
   insert_node k p v s = Fault NullDeref"
proof (induction t arbitrary: k p)
  case Tip
  then obtain k' where "k = Suc k'" by (cases k) auto
  with Tip show ?case by (simp add: createNode_exhausted)
next
  case (Br a l x r)
  from Br.prems(4) obtain k' where k: "k = Suc k'" "height l < k'" "height r < k'"
    by (cases k) auto
  from Br.prems(1) obtain n where n: "p = Some a" "heap s a = Some n" "data n = x"
    "heap_tree (heap s) (left n) l" "heap_tree (heap s) (right n) r"
    by (auto split: option.splits)
  from Br.prems(2) have neq: "x \<noteq> v" by (auto split: if_splits)
  show ?case
  proof (cases "v <s x")
    case True
    with Br.prems(2) neq have "find_ptr v l = None" by simp
    from Br.IH(1)[OF n(4) this Br.prems(3) k(2)] True n(1,2,3) show ?thesis
      by (simp add: k load_live)
  next
    case False
    from False neq have gt: "x <s v" by (rule signed_cases)
    from Br.prems(2) neq False have "find_ptr v r = None" by simp
    from Br.IH(2)[OF n(5) this Br.prems(3) k(3)] False gt n(1,2,3) show ?thesis
      by (simp add: k load_live)
  qed
qed

section \<open>Sequences of insertions\<close>

lemma insert_all_tree:
  "is_tree (heap s) p t \<Longrightarrow> bst t \<Longrightarrow> distinct (map fst (fresh s)) \<Longrightarrow>
   set (addrs t) \<inter> fst ` set (fresh s) = {} \<Longrightarrow>
   length vs \<le> length (fresh s) \<Longrightarrow> length (addrs t) + length vs < k \<Longrightarrow>
   \<exists>p' s' t'. insert_all k p vs s = Done (p', s') \<and> is_tree (heap s') p' t' \<and> bst t' \<and>
      set (vals t') = set (vals t) \<union> set vs \<and> out s' = out s \<and>
      length (addrs t') \<le> length (addrs t) + length vs"
proof (induction vs arbitrary: s p t)
  case Nil
  then show ?case by auto
next
  case (Cons v vs)
  from Cons.prems(5) obtain a' j rest where fr: "fresh s = (a', j) # rest"
    by (cases "fresh s") auto
  from Cons.prems(4) fr have a': "a' \<notin> set (addrs t)" by auto
  have "height t < k" using height_le_nodes[of t] Cons.prems(6) by simp
  from insert_node_tree[OF Cons.prems(1) fr a' this, of v]
  obtain s1 where s1: "insert_node k p v s = Done (root_ptr (ins a' v t), s1)"
    "is_tree (heap s1) (root_ptr (ins a' v t)) (ins a' v t)"
    "out s1 = out s"
    "fresh s1 = (if find_ptr v t = None then rest else fresh s)"
    by blast
  let ?t1 = "ins a' v t"
  have b1: "bst ?t1" using Cons.prems(2) by (rule bst_ins)
  have d1: "distinct (map fst (fresh s1))" using Cons.prems(3) fr s1(4) by auto
  have x1: "set (addrs ?t1) \<inter> fst ` set (fresh s1) = {}"
  proof (cases "find_ptr v t = None")
    case True
    then have "set (addrs ?t1) = insert a' (set (addrs t))" by (rule addrs_ins_miss)
    moreover have "a' \<notin> fst ` set rest" using Cons.prems(3) fr by auto
    ultimately show ?thesis using True s1(4) Cons.prems(4) fr by auto
  next
    case False
    then have "?t1 = t" by (rule ins_hit)
    with False s1(4) Cons.prems(4) show ?thesis by auto
  qed
  have l1: "length vs \<le> length (fresh s1)" using Cons.prems(5) fr s1(4) by auto
  have k1: "length (addrs ?t1) + length vs < k"
    using length_addrs_ins[of a' v t] Cons.prems(6) by simp
  from Cons.IH[OF s1(2) b1 d1 x1 l1 k1]
  obtain p' s' t' where r: "insert_all k (root_ptr ?t1) vs s1 = Done (p', s')"
    "is_tree (heap s') p' t'" "bst t'" "set (vals t') = set (vals ?t1) \<union> set vs"
    "out s' = out s1" "length (addrs t') \<le> length (addrs ?t1) + length vs"
    by blast
  have "insert_all k p (v # vs) s = Done (p', s')" using s1(1) r(1) by simp
  moreover have "set (vals t') = set (vals t) \<union> set (v # vs)"
    using r(4) by (simp add: set_vals_ins)
  moreover have "length (addrs t') \<le> length (addrs t) + length (v # vs)"
    using r(6) length_addrs_ins[of a' v t] by simp
  ultimately show ?case using r(2,3,5) s1(3) by auto
qed

text \<open>The inserts of a whole list, started from the null pointer.\<close>

lemma insert_all_empty:
  assumes "distinct (map fst (fresh s))" "length vs \<le> length (fresh s)" "length vs < k"
  shows "\<exists>root s' t. insert_all k None vs s = Done (root, s') \<and> is_tree (heap s') root t \<and>
      bst t \<and> set (vals t) = set vs \<and> out s' = out s \<and> height t < k"
proof -
  have "is_tree (heap s) None Tip" "bst Tip" "set (addrs Tip) \<inter> fst ` set (fresh s) = {}"
    "length (addrs Tip) + length vs < k"
    using assms(3) by (simp_all add: is_tree_def)
  from insert_all_tree[OF this(1,2) assms(1) this(3) assms(2) this(4)]
  obtain root s' t where r: "insert_all k None vs s = Done (root, s')" "is_tree (heap s') root t"
    "bst t" "set (vals t) = set (vals Tip) \<union> set vs" "out s' = out s"
    "length (addrs t) \<le> length (addrs Tip) + length vs"
    by blast
  have "height t < k" using height_le_nodes[of t] r(6) assms(3) by simp
  with r show ?thesis by auto
qed

section \<open>The driver\<close>

lemma heap_printf: "heap (printf items s) = heap s"
  by (simp add: printf_def)

lemma out_printf: "out (printf items s) = out s @ items"
  by (simp add: printf_def)

lemma insert_all_Some_Cons:
  "insert_all k (Some a) (v # vs) s =
   bind_r (insert_node k (Some a) v s) (\<lambda>(_, s'). insert_all k (Some a) vs s')"
proof (cases "insert_node k (Some a) v s")
  case (Done r)
  then obtain p' s' where r: "r = (p', s')" by (cases r) auto
  with Done insert_node_root[of k a v s p' s'] show ?thesis by simp
qed simp_all

lemma insert_node_null_Done:
  "insert_node k None v s = Done (p', s') \<Longrightarrow> \<exists>a. p' = Some a"
  by (cases k) (auto dest: createNode_Done)

lemma main_build_insert_all:
  "main_build k s = insert_all k None [50, 30, 70, 20, 40, 60, 80] s"
proof (cases "insert_node k None 50 s")
  case Timeout
  then show ?thesis by (simp add: main_build_def)
next
  case (Fault e)
  then show ?thesis by (simp add: main_build_def)
next
  case (Done r)
  then obtain p' s1 where r: "r = (p', s1)" by (cases r) auto
  with Done insert_node_null_Done[of k 50 s p' s1] obtain a where a: "p' = Some a" by auto
  have "insert_all k (Some a) [30, 70, 20, 40, 60, 80] s1 =
     bind_r (insert_node k (Some a) 30 s1) (\<lambda>(_, s2).
     bind_r (insert_node k (Some a) 70 s2) (\<lambda>(_, s3).
     bind_r (insert_node k (Some a) 20 s3) (\<lambda>(_, s4).
     bind_r (insert_node k (Some a) 40 s4) (\<lambda>(_, s5).
     bind_r (insert_node k (Some a) 60 s5) (\<lambda>(_, s6).
     bind_r (insert_node k (Some a) 80 s6) (\<lambda>(_, s7).
     Done (Some a, s7)))))))"
    by (simp only: insert_all_Some_Cons insert_all.simps(1))
  with Done r a show ?thesis by (simp add: main_build_def)
qed

subsection \<open>The example tree\<close>

lemma demo_is_tree: "is_tree (heap demo) (Some 1) demo_shape"
  by (simp add: is_tree_def demo_def demo_shape_def)

lemma demo_height: "height demo_shape < 3"
  by (simp add: demo_shape_def)

section \<open>Claims\<close>

text \<open>
  C1. Insert any finite list of values, one after the other, starting from the null
  pointer. When the allocator hands out distinct addresses and holds a block for every
  value (so that no \<open>malloc\<close> fails), and the recursion bound exceeds the length of the
  list, the calls all return, and what the last one returns is a tree in the heap that
  satisfies the invariant \<open>bst\<close>: at every node the values of the left subtree are
  strictly below the node's value and those of the right subtree strictly above. The
  values of the tree are those of the list.
\<close>

theorem insert_all_bst:
  assumes "distinct (map fst (fresh s))" "length vs \<le> length (fresh s)" "length vs < k"
  shows "\<exists>root s' t. insert_all k None vs s = Done (root, s') \<and>
           is_tree (heap s') root t \<and> bst t \<and> set (vals t) = set vs"
  using insert_all_empty[OF assms] by blast

theorem insert_all_bst_witness:
  "distinct (map fst (fresh (boot [1, 2, 3]))) \<and>
   length [2, 1, 2 :: cint] \<le> length (fresh (boot [1, 2, 3])) \<and>
   length [2, 1, 2 :: cint] < 4 \<and>
   (\<exists>root s' t. insert_all 4 None [2, 1, 2] (boot [1, 2, 3]) = Done (root, s') \<and>
      is_tree (heap s') root t \<and> bst t \<and> set (vals t) = set [2, 1, 2])"
proof -
  have h1: "distinct (map fst (fresh (boot [1, 2, 3])))" by (simp add: boot_def)
  have h2: "length [2, 1, 2 :: cint] \<le> length (fresh (boot [1, 2, 3]))" by (simp add: boot_def)
  have h3: "length [2, 1, 2 :: cint] < 4" by simp
  show ?thesis by (rule conjI[OF h1 conjI[OF h2 conjI[OF h3 insert_all_bst[OF h1 h2 h3]]]])
qed

text \<open>
  C2. On the tree built by such a sequence of inserts, \<open>search\<close> returns for every
  value of the sequence the address of a live node that holds this value, and for every
  value that does not occur in the sequence it returns \<open>NULL\<close>.
\<close>

theorem insert_all_search:
  assumes "distinct (map fst (fresh s))" "length vs \<le> length (fresh s)" "length vs < k"
  shows "\<exists>root s'. insert_all k None vs s = Done (root, s') \<and>
           (\<forall>v\<in>set vs. \<exists>a n. search k root v s' = Done (Some a) \<and>
                                heap s' a = Some n \<and> data n = v) \<and>
           (\<forall>v. v \<notin> set vs \<longrightarrow> search k root v s' = Done None)"
proof -
  from insert_all_empty[OF assms]
  obtain root s' t where r: "insert_all k None vs s = Done (root, s')" "is_tree (heap s') root t"
    "bst t" "set (vals t) = set vs" "height t < k"
    by blast
  from r(2) have ht: "heap_tree (heap s') root t" by (simp add: is_tree_def)
  have srch: "\<And>v. search k root v s' = Done (find_ptr v t)"
    using ht r(5) by (rule search_find_ptr)
  have "\<exists>a n. search k root v s' = Done (Some a) \<and> heap s' a = Some n \<and> data n = v"
    if "v \<in> set vs" for v
  proof -
    from that r(4) have "find_ptr v t \<noteq> None" using find_ptr_bst[OF r(3), of v] by blast
    then obtain a where a: "find_ptr v t = Some a" by auto
    from find_ptr_live[OF ht a] srch[of v] a show ?thesis by auto
  qed
  moreover have "search k root v s' = Done None" if "v \<notin> set vs" for v
  proof -
    from that r(4) have "find_ptr v t = None" using find_ptr_bst[OF r(3), of v] by blast
    with srch[of v] show ?thesis by simp
  qed
  ultimately show ?thesis using r(1) by blast
qed

theorem insert_all_search_witness:
  "distinct (map fst (fresh (boot [1, 2, 3]))) \<and>
   length [2, 1, 2 :: cint] \<le> length (fresh (boot [1, 2, 3])) \<and>
   length [2, 1, 2 :: cint] < 4 \<and>
   (\<exists>root s'. insert_all 4 None [2, 1, 2] (boot [1, 2, 3]) = Done (root, s') \<and>
      (\<forall>v\<in>set [2, 1, 2]. \<exists>a n. search 4 root v s' = Done (Some a) \<and>
                                heap s' a = Some n \<and> data n = v) \<and>
      (\<forall>v. v \<notin> set [2, 1, 2] \<longrightarrow> search 4 root v s' = Done None))"
proof -
  have h1: "distinct (map fst (fresh (boot [1, 2, 3])))" by (simp add: boot_def)
  have h2: "length [2, 1, 2 :: cint] \<le> length (fresh (boot [1, 2, 3]))" by (simp add: boot_def)
  have h3: "length [2, 1, 2 :: cint] < 4" by simp
  show ?thesis by (rule conjI[OF h1 conjI[OF h2 conjI[OF h3 insert_all_search[OF h1 h2 h3]]]])
qed

text \<open>
  C3. On the tree built by such a sequence of inserts, the traversal prints a list of
  values that is strictly ascending in the signed order, hence without repetition, and
  whose elements are exactly the values inserted: every distinct value once.
\<close>

theorem insert_all_inorder:
  assumes "distinct (map fst (fresh s))" "length vs \<le> length (fresh s)" "length vs < k"
  shows "\<exists>root s' xs. insert_all k None vs s = Done (root, s') \<and>
           inorderTraversal k root s' = Done (s'\<lparr>out := out s' @ printed xs\<rparr>) \<and>
           sorted_wrt (<s) xs \<and> distinct xs \<and> set xs = set vs"
proof -
  from insert_all_empty[OF assms]
  obtain root s' t where r: "insert_all k None vs s = Done (root, s')" "is_tree (heap s') root t"
    "bst t" "set (vals t) = set vs" "height t < k"
    by blast
  from r(2) have ht: "heap_tree (heap s') root t" by (simp add: is_tree_def)
  have "inorderTraversal k root s' = Done (s'\<lparr>out := out s' @ printed (vals t)\<rparr>)"
    using ht r(5) by (rule inorderTraversal_vals)
  moreover have "sorted_wrt (<s) (vals t)" using r(3) by (rule bst_sorted)
  moreover from this have "distinct (vals t)" by (simp add: signed.strict_sorted_iff)
  ultimately show ?thesis using r(1,4) by blast
qed

theorem insert_all_inorder_witness:
  "distinct (map fst (fresh (boot [1, 2, 3]))) \<and>
   length [2, 1, 2 :: cint] \<le> length (fresh (boot [1, 2, 3])) \<and>
   length [2, 1, 2 :: cint] < 4 \<and>
   (\<exists>root s' xs. insert_all 4 None [2, 1, 2] (boot [1, 2, 3]) = Done (root, s') \<and>
      inorderTraversal 4 root s' = Done (s'\<lparr>out := out s' @ printed xs\<rparr>) \<and>
      sorted_wrt (<s) xs \<and> distinct xs \<and> set xs = set [2, 1, 2])"
proof -
  have h1: "distinct (map fst (fresh (boot [1, 2, 3])))" by (simp add: boot_def)
  have h2: "length [2, 1, 2 :: cint] \<le> length (fresh (boot [1, 2, 3]))" by (simp add: boot_def)
  have h3: "length [2, 1, 2 :: cint] < 4" by simp
  show ?thesis by (rule conjI[OF h1 conjI[OF h2 conjI[OF h3 insert_all_inorder[OF h1 h2 h3]]]])
qed

text \<open>
  C4. Let \<open>p\<close> point to a tree in the heap, with enough recursion depth and an allocator
  that does not hand out a node of the tree. If the tree satisfies the invariant of the
  data model and \<open>v\<close> is one of its values, \<open>insert\<close> returns \<open>p\<close> and the very state it
  was given: heap, allocator and output are as before, so shape, values and in-order
  sequence are as before. And whatever \<open>v\<close> is, once a call of \<open>insert\<close> has returned,
  inserting \<open>v\<close> again into its result returns the same pointer and leaves the state as
  it is: \<open>insert\<close> is idempotent. The second part needs no invariant; the second call
  is given one more level of recursion, since the first one may have made the tree one
  node higher.
\<close>

theorem insert_present_unchanged:
  assumes "is_tree (heap s) p t" "height t < k" "set (addrs t) \<inter> fst ` set (fresh s) = {}"
  shows "(bst t \<and> v \<in> set (vals t) \<longrightarrow>
            insert_node k p v s = Done (p, s) \<and>
            inorderTraversal k p s = Done (s\<lparr>out := out s @ printed (vals t)\<rparr>)) \<and>
         (\<forall>p' s'. insert_node k p v s = Done (p', s') \<longrightarrow>
            insert_node (Suc k) p' v s' = Done (p', s'))"
proof (intro conjI impI allI)
  from assms(1) have ht: "heap_tree (heap s) p t" by (simp add: is_tree_def)
  {
    assume "bst t \<and> v \<in> set (vals t)"
    then have "find_ptr v t \<noteq> None" using find_ptr_bst[of t v] by blast
    with ht assms(2) show "insert_node k p v s = Done (p, s)" by (intro insert_node_hit)
    from ht assms(2) show "inorderTraversal k p s = Done (s\<lparr>out := out s @ printed (vals t)\<rparr>)"
      by (rule inorderTraversal_vals)
  }
  fix p' s'
  assume run: "insert_node k p v s = Done (p', s')"
  show "insert_node (Suc k) p' v s' = Done (p', s')"
  proof (cases "find_ptr v t = None")
    case False
    from insert_node_hit[OF ht False assms(2)] run have same: "p' = p" "s' = s" by simp_all
    from assms(2) have "height t < Suc k" by simp
    from insert_node_hit[OF ht False this] same show ?thesis by simp
  next
    case True
    have "fresh s \<noteq> []"
      using insert_node_miss_exhausted[OF ht True _ assms(2)] run by auto
    then obtain a' j rest where fr: "fresh s = (a', j) # rest"
      by (cases "fresh s") auto
    with assms(3) have "a' \<notin> set (addrs t)" by auto
    from insert_node_tree[OF assms(1) fr this assms(2), of v] run
    have t': "p' = root_ptr (ins a' v t)" "is_tree (heap s') p' (ins a' v t)" by auto
    then have "heap_tree (heap s') p' (ins a' v t)" by (simp add: is_tree_def)
    moreover have "find_ptr v (ins a' v t) \<noteq> None" by (rule find_ptr_ins)
    moreover have "height (ins a' v t) < Suc k" using height_ins[of a' v t] assms(2) by simp
    ultimately show ?thesis by (rule insert_node_hit)
  qed
qed

theorem insert_present_unchanged_witness:
  "is_tree (heap demo) (Some 1) demo_shape \<and> height demo_shape < 3 \<and>
   set (addrs demo_shape) \<inter> fst ` set (fresh demo) = {} \<and>
   bst demo_shape \<and> 3 \<in> set (vals demo_shape) \<and>
   insert_node 3 (Some 1) 3 demo = Done (Some 1, demo) \<and>
   inorderTraversal 3 (Some 1) demo = Done (demo\<lparr>out := out demo @ printed (vals demo_shape)\<rparr>) \<and>
   insert_node (Suc 3) (Some 1) 3 demo = Done (Some 1, demo) \<and>
   (\<exists>p' s'. insert_node 3 (Some 1) 4 demo = Done (p', s') \<and>
      insert_node (Suc 3) p' 4 s' = Done (p', s'))"
proof -
  have h3: "set (addrs demo_shape) \<inter> fst ` set (fresh demo) = {}"
    by (simp add: demo_def demo_shape_def)
  have b: "bst demo_shape" "3 \<in> set (vals demo_shape)" by (simp_all add: demo_shape_def)
  from insert_present_unchanged[OF demo_is_tree demo_height h3, of 3] b
  have c: "insert_node 3 (Some 1) 3 demo = Done (Some 1, demo)"
    "inorderTraversal 3 (Some 1) demo = Done (demo\<lparr>out := out demo @ printed (vals demo_shape)\<rparr>)"
    "\<forall>p' s'. insert_node 3 (Some 1) 3 demo = Done (p', s') \<longrightarrow>
        insert_node (Suc 3) p' 3 s' = Done (p', s')"
    by blast+
  from c(1) c(3) have again: "insert_node (Suc 3) (Some 1) 3 demo = Done (Some 1, demo)" by blast
  have fr: "fresh demo = (3, junk) # []" by (simp add: demo_def)
  have "3 \<notin> set (addrs demo_shape)" by (simp add: demo_shape_def)
  from insert_node_tree[OF demo_is_tree fr this demo_height, of 4]
  obtain p' s' where "insert_node 3 (Some 1) 4 demo = Done (p', s')" by blast
  with insert_present_unchanged[OF demo_is_tree demo_height h3, of 4]
  have miss: "\<exists>p' s'. insert_node 3 (Some 1) 4 demo = Done (p', s') \<and>
      insert_node (Suc 3) p' 4 s' = Done (p', s')" by blast
  from demo_is_tree demo_height h3 b c(1,2) again miss show ?thesis by blast
qed

text \<open>
  C5. On a tree in the heap, a recursion depth above the height of the tree is enough for
  all four operations: none of them runs into the bound. \<open>search\<close>, the traversal and
  \<open>freeTree\<close> return; \<open>insert\<close> returns as well, unless it has to allocate while the
  allocator is exhausted, where it stops in the null dereference of \<open>createNode\<close>.
\<close>

theorem operations_terminate:
  assumes "is_tree (heap s) p t" "height t < k"
  shows "((\<exists>r. insert_node k p v s = Done r) \<or>
          insert_node k p v s = Fault NullDeref \<and> fresh s = []) \<and>
         (\<exists>q. search k p v s = Done q) \<and>
         (\<exists>s'. inorderTraversal k p s = Done s') \<and>
         (\<exists>s'. freeTree k p s = Done s')"
proof -
  from assms(1) have ht: "heap_tree (heap s) p t" and d: "distinct (addrs t)"
    by (simp_all add: is_tree_def)
  show ?thesis
    using insert_node_returns[OF ht assms(2), of v] search_find_ptr[OF ht assms(2), of v]
      inorderTraversal_vals[OF ht assms(2)] freeTree_frees[OF ht d assms(2)]
    by simp
qed

theorem operations_terminate_witness:
  "is_tree (heap demo) (Some 1) demo_shape \<and> height demo_shape < 3 \<and>
   ((\<exists>r. insert_node 3 (Some 1) 4 demo = Done r) \<or>
    insert_node 3 (Some 1) 4 demo = Fault NullDeref \<and> fresh demo = []) \<and>
   (\<exists>q. search 3 (Some 1) 4 demo = Done q) \<and>
   (\<exists>s'. inorderTraversal 3 (Some 1) demo = Done s') \<and>
   (\<exists>s'. freeTree 3 (Some 1) demo = Done s')"
  by (rule conjI[OF demo_is_tree conjI[OF demo_height
        operations_terminate[OF demo_is_tree demo_height]]])

text \<open>
  C6. On the empty tree, that is for the pointer \<open>NULL\<close>, the traversal returns at once
  with the state as it was, so that nothing is printed, and the search for any value
  returns \<open>NULL\<close>. One level of recursion is enough for both.
\<close>

theorem empty_tree_traversal_and_search:
  "inorderTraversal (Suc k) None s = Done s \<and> search (Suc k) None v s = Done None"
  by simp

text \<open>
  C7. The driver. When the allocator holds at least seven blocks at distinct addresses,
  the seven calls of \<open>insert\<close> in \<open>main\<close>, for 50, 30, 70, 20, 40, 60 and 80, build a
  tree whose traversal prints 20 30 40 50 60 70 80, in which the search for 40 returns a
  node holding 40 and the search for 99 returns \<open>NULL\<close>. \<open>main\<close> itself returns 0 after
  printing the label, these seven values, a newline and the message that 40 was found.
\<close>

theorem main_scenario:
  assumes "distinct (map fst (fresh s))" "7 \<le> length (fresh s)" "7 < k"
  shows "\<exists>root s1. main_build k s = Done (root, s1) \<and>
           inorderTraversal k root s1 =
             Done (s1\<lparr>out := out s1 @ printed [20, 30, 40, 50, 60, 70, 80]\<rparr>) \<and>
           (\<exists>a n. search k root 40 s1 = Done (Some a) \<and> heap s1 a = Some n \<and> data n = 40) \<and>
           search k root 99 s1 = Done None \<and>
           (\<exists>s2. main k s = Done (0, s2) \<and>
              out s2 = out s @ Txt ''BST in-order traversal: '' #
                 printed [20, 30, 40, 50, 60, 70, 80] @
                 [Txt [CHR 0x0A], Txt ''Value '', Dec 40,
                  Txt ('' found in the BST.'' @ [CHR 0x0A])])"
proof -
  let ?vs = "[50, 30, 70, 20, 40, 60, 80] :: cint list"
  have "length ?vs \<le> length (fresh s)" "length ?vs < k" using assms(2,3) by simp_all
  from insert_all_empty[OF assms(1) this]
  obtain root s1 t where r: "insert_all k None ?vs s = Done (root, s1)"
    "is_tree (heap s1) root t" "bst t" "set (vals t) = set ?vs" "out s1 = out s" "height t < k"
    by blast
  from r(2) have ht: "heap_tree (heap s1) root t" and d: "distinct (addrs t)"
    by (simp_all add: is_tree_def)
  have build: "main_build k s = Done (root, s1)" using r(1) by (simp add: main_build_insert_all)
  have lit: "sorted_wrt (<s) ([20, 30, 40, 50, 60, 70, 80] :: cint list)" by simp
  have "set (vals t) = set ([20, 30, 40, 50, 60, 70, 80] :: cint list)"
    using r(4) by auto
  with lit bst_sorted[OF r(3)] have vals: "vals t = [20, 30, 40, 50, 60, 70, 80]"
    by (rule signed.strict_sorted_equal)
  have trav: "inorderTraversal k root s' = Done (s'\<lparr>out := out s' @ printed [20, 30, 40, 50, 60, 70, 80]\<rparr>)"
    if "heap s' = heap s1" for s'
    using inorderTraversal_vals[of s' root t k] ht r(6) that vals by simp
  have "find_ptr 40 t \<noteq> None" using find_ptr_bst[OF r(3), of 40] vals by simp
  then obtain a where a: "find_ptr 40 t = Some a" by auto
  from find_ptr_live[OF ht a] obtain n where n: "heap s1 a = Some n" "data n = 40" by auto
  have srch: "search k root v s' = Done (find_ptr v t)" if "heap s' = heap s1" for s' v
    using search_find_ptr[of s' root t k v] ht r(6) that by simp
  have "find_ptr 99 t = None" using find_ptr_bst[OF r(3), of 99] vals by simp
  with srch[of s1 99] have s99: "search k root 99 s1 = Done None" by simp
  have free: "\<exists>s2. freeTree k root s' = Done s2 \<and> out s2 = out s'" if "heap s' = heap s1" for s'
    using freeTree_frees[of s' root t k] ht d r(6) that by simp
  let ?sa = "printf [Txt ''BST in-order traversal: ''] s1"
  let ?sb = "?sa\<lparr>out := out ?sa @ printed [20, 30, 40, 50, 60, 70, 80]\<rparr>"
  let ?sc = "printf [Txt [CHR 0x0A]] ?sb"
  let ?sd = "printf [Txt ''Value '', Dec 40, Txt ('' found in the BST.'' @ [CHR 0x0A])] ?sc"
  have t1: "inorderTraversal k root ?sa = Done ?sb" by (rule trav) (simp add: heap_printf)
  have t2: "search k root 40 ?sc = Done (Some a)"
    using srch[of ?sc 40] a by (simp add: heap_printf)
  from free[of ?sd] obtain s2 where s2: "freeTree k root ?sd = Done s2" "out s2 = out ?sd"
    by (auto simp: heap_printf)
  have "main k s = Done (0, s2)"
    using build t1 t2 s2(1) by (simp add: main_def)
  moreover have "out s2 = out s @ Txt ''BST in-order traversal: '' #
                 printed [20, 30, 40, 50, 60, 70, 80] @
                 [Txt [CHR 0x0A], Txt ''Value '', Dec 40,
                  Txt ('' found in the BST.'' @ [CHR 0x0A])]"
    using s2(2) r(5) by (simp add: out_printf)
  ultimately show ?thesis using build trav[of s1] srch[of s1 40] a n s99 by auto
qed

theorem main_scenario_witness:
  "distinct (map fst (fresh (boot [1, 2, 3, 4, 5, 6, 7]))) \<and>
   7 \<le> length (fresh (boot [1, 2, 3, 4, 5, 6, 7])) \<and> (7::nat) < 8 \<and>
   (\<exists>root s1. main_build 8 (boot [1, 2, 3, 4, 5, 6, 7]) = Done (root, s1) \<and>
      inorderTraversal 8 root s1 =
        Done (s1\<lparr>out := out s1 @ printed [20, 30, 40, 50, 60, 70, 80]\<rparr>) \<and>
      (\<exists>a n. search 8 root 40 s1 = Done (Some a) \<and> heap s1 a = Some n \<and> data n = 40) \<and>
      search 8 root 99 s1 = Done None \<and>
      (\<exists>s2. main 8 (boot [1, 2, 3, 4, 5, 6, 7]) = Done (0, s2) \<and>
         out s2 = out (boot [1, 2, 3, 4, 5, 6, 7]) @ Txt ''BST in-order traversal: '' #
            printed [20, 30, 40, 50, 60, 70, 80] @
            [Txt [CHR 0x0A], Txt ''Value '', Dec 40,
             Txt ('' found in the BST.'' @ [CHR 0x0A])]))"
proof -
  have h1: "distinct (map fst (fresh (boot [1, 2, 3, 4, 5, 6, 7])))" by (simp add: boot_def)
  have h2: "7 \<le> length (fresh (boot [1, 2, 3, 4, 5, 6, 7]))" by (simp add: boot_def)
  have h3: "(7::nat) < 8" by simp
  show ?thesis by (rule conjI[OF h1 conjI[OF h2 conjI[OF h3 main_scenario[OF h1 h2 h3]]]])
qed

text \<open>
  C8. Let the non-null pointer \<open>Some a\<close> point to a tree in the heap, and let the next
  block of the allocator lie outside the tree. Then \<open>insert\<close> returns \<open>Some a\<close> again,
  and the node at \<open>a\<close> holds the value it held. Every node that was live keeps its value,
  so that among the nodes of the tree only links change; what lies outside the tree and
  the new block is untouched. The tree after the call has the shape \<open>ins a' v t\<close>: if the
  descent meets \<open>v\<close>, the state is the one before; if not, exactly the block \<open>a'\<close> is
  taken from the allocator and hung where the descent reached \<open>NULL\<close>.
\<close>

theorem insert_keeps_root:
  assumes "is_tree (heap s) (Some a) t" "height t < k" "fresh s = (a', j) # rest"
    "a' \<notin> set (addrs t)"
  shows "\<exists>s'. insert_node k (Some a) v s = Done (Some a, s') \<and>
           is_tree (heap s') (Some a) (ins a' v t) \<and>
           (\<exists>n n'. heap s a = Some n \<and> heap s' a = Some n' \<and> data n' = data n) \<and>
           (\<forall>b n. heap s b = Some n \<and> b \<noteq> a' \<longrightarrow>
                   (\<exists>n'. heap s' b = Some n' \<and> data n' = data n)) \<and>
           (\<forall>b. b \<notin> set (addrs t) \<and> b \<noteq> a' \<longrightarrow> heap s' b = heap s b) \<and>
           (find_ptr v t \<noteq> None \<longrightarrow> s' = s) \<and>
           (find_ptr v t = None \<longrightarrow>
              fresh s' = rest \<and> set (addrs (ins a' v t)) = insert a' (set (addrs t)))"
proof -
  from assms(1) have ht: "heap_tree (heap s) (Some a) t" by (simp add: is_tree_def)
  then obtain l x r where t: "t = Br a l x r" by (cases t) auto
  with ht obtain n where n: "heap s a = Some n" by (auto split: option.splits)
  from t assms(4) have neq: "a \<noteq> a'" by auto
  have rp: "root_ptr (ins a' v t) = Some a" using t by simp
  from insert_node_tree[OF assms(1) assms(3) assms(4) assms(2), of v]
  obtain s' where s': "insert_node k (Some a) v s = Done (Some a, s')"
    "is_tree (heap s') (Some a) (ins a' v t)"
    "fresh s' = (if find_ptr v t = None then rest else fresh s)"
    "find_ptr v t \<noteq> None \<longrightarrow> s' = s"
    "\<forall>b. b \<notin> set (addrs t) \<and> b \<noteq> a' \<longrightarrow> heap s' b = heap s b"
    "\<forall>b n. heap s b = Some n \<and> b \<noteq> a' \<longrightarrow> (\<exists>n'. heap s' b = Some n' \<and> data n' = data n)"
    unfolding rp by blast
  from s'(6) n neq have c1: "\<exists>n n'. heap s a = Some n \<and> heap s' a = Some n' \<and> data n' = data n"
    by blast
  have c2: "find_ptr v t = None \<longrightarrow>
      fresh s' = rest \<and> set (addrs (ins a' v t)) = insert a' (set (addrs t))"
    using s'(3) addrs_ins_miss[of v t a'] by simp
  from s'(1,2) c1 s'(6,5,4) c2 show ?thesis
    by - (rule exI[of _ s'], intro conjI, assumption+)
qed

theorem insert_keeps_root_witness:
  "is_tree (heap demo) (Some 1) demo_shape \<and> height demo_shape < 3 \<and>
   fresh demo = [(3, junk)] \<and> 3 \<notin> set (addrs demo_shape) \<and>
   (\<exists>s'. insert_node 3 (Some 1) 4 demo = Done (Some 1, s') \<and>
      is_tree (heap s') (Some 1) (Br 1 (Br 2 Tip 3 (Br 3 Tip 4 Tip)) 5 Tip) \<and>
      fresh s' = [])"
proof -
  have h3: "fresh demo = (3, junk) # []" by (simp add: demo_def)
  have h4: "3 \<notin> set (addrs demo_shape)" by (simp add: demo_shape_def)
  have miss: "find_ptr 4 demo_shape = None" by (simp add: demo_shape_def)
  have shape: "ins 3 4 demo_shape = Br 1 (Br 2 Tip 3 (Br 3 Tip 4 Tip)) 5 Tip"
    by (simp add: demo_shape_def)
  from insert_keeps_root[OF demo_is_tree demo_height h3 h4, of 4] miss
  have "\<exists>s'. insert_node 3 (Some 1) 4 demo = Done (Some 1, s') \<and>
      is_tree (heap s') (Some 1) (ins 3 4 demo_shape) \<and> fresh s' = []"
    by blast
  with demo_is_tree demo_height h3 h4 show ?thesis unfolding shape by simp
qed

text \<open>
  C9. \<open>createNode\<close> does not test what \<open>malloc\<close> returns. When the allocator has no block
  left, \<open>malloc\<close> returns \<open>NULL\<close> and leaves the state alone, and the first assignment,
  \<open>newNode->data = value\<close>, goes through that null pointer: the call ends in the fault
  \<open>NullDeref\<close>, and so does every \<open>insert\<close> into an empty subtree.
\<close>

theorem createNode_unchecked_malloc:
  "fresh s = [] \<Longrightarrow>
   malloc s = (None, s) \<and> createNode v s = Fault NullDeref \<and>
   insert_node (Suc k) None v s = Fault NullDeref"
  by (simp add: malloc_def createNode_exhausted)

theorem createNode_unchecked_malloc_witness:
  "fresh \<lparr>heap = Map.empty, fresh = [], out = []\<rparr> = [] \<and>
   malloc \<lparr>heap = Map.empty, fresh = [], out = []\<rparr>
     = (None, \<lparr>heap = Map.empty, fresh = [], out = []\<rparr>) \<and>
   createNode 5 \<lparr>heap = Map.empty, fresh = [], out = []\<rparr> = Fault NullDeref \<and>
   insert_node (Suc 0) None 5 \<lparr>heap = Map.empty, fresh = [], out = []\<rparr> = Fault NullDeref"
  using createNode_unchecked_malloc [of "\<lparr>heap = Map.empty, fresh = [], out = []\<rparr>" 5 0]
  by simp

text \<open>
  C10. Two lists with the same set of values, inserted from the null pointer in two
  runs (each with its own allocator and its own recursion bound, under the conditions of
  C1), give trees whose traversals print the same list of values. Order and repetition of
  the insertions do not show in the output.
\<close>

theorem inorder_depends_on_set_only:
  assumes "set vs1 = set vs2"
    and "distinct (map fst (fresh s1))" "length vs1 \<le> length (fresh s1)" "length vs1 < k1"
    and "distinct (map fst (fresh s2))" "length vs2 \<le> length (fresh s2)" "length vs2 < k2"
  shows "\<exists>root1 s1' root2 s2' xs.
           insert_all k1 None vs1 s1 = Done (root1, s1') \<and>
           insert_all k2 None vs2 s2 = Done (root2, s2') \<and>
           inorderTraversal k1 root1 s1' = Done (s1'\<lparr>out := out s1' @ printed xs\<rparr>) \<and>
           inorderTraversal k2 root2 s2' = Done (s2'\<lparr>out := out s2' @ printed xs\<rparr>)"
proof -
  from insert_all_empty[OF assms(2,3,4)]
  obtain root1 s1' t1 where r1: "insert_all k1 None vs1 s1 = Done (root1, s1')"
    "is_tree (heap s1') root1 t1" "bst t1" "set (vals t1) = set vs1" "height t1 < k1"
    by blast
  from insert_all_empty[OF assms(5,6,7)]
  obtain root2 s2' t2 where r2: "insert_all k2 None vs2 s2 = Done (root2, s2')"
    "is_tree (heap s2') root2 t2" "bst t2" "set (vals t2) = set vs2" "height t2 < k2"
    by blast
  have "vals t2 = vals t1"
    using bst_sorted[OF r1(3)] bst_sorted[OF r2(3)] r1(4) r2(4) assms(1)
    by (intro signed.strict_sorted_equal) simp_all
  moreover have "inorderTraversal k1 root1 s1' = Done (s1'\<lparr>out := out s1' @ printed (vals t1)\<rparr>)"
    using r1(2,5) by (intro inorderTraversal_vals) (simp_all add: is_tree_def)
  moreover have "inorderTraversal k2 root2 s2' = Done (s2'\<lparr>out := out s2' @ printed (vals t2)\<rparr>)"
    using r2(2,5) by (intro inorderTraversal_vals) (simp_all add: is_tree_def)
  ultimately show ?thesis using r1(1) r2(1) by auto
qed

theorem inorder_depends_on_set_only_witness:
  "set [2, 1, 2 :: cint] = set [1, 2] \<and>
   (\<exists>root1 s1' root2 s2' xs.
      insert_all 4 None [2, 1, 2] (boot [1, 2, 3]) = Done (root1, s1') \<and>
      insert_all 3 None [1, 2] (boot [5, 4]) = Done (root2, s2') \<and>
      inorderTraversal 4 root1 s1' = Done (s1'\<lparr>out := out s1' @ printed xs\<rparr>) \<and>
      inorderTraversal 3 root2 s2' = Done (s2'\<lparr>out := out s2' @ printed xs\<rparr>))"
proof -
  have h0: "set [2, 1, 2 :: cint] = set [1, 2]" by auto
  have h1: "distinct (map fst (fresh (boot [1, 2, 3])))" by (simp add: boot_def)
  have h2: "length [2, 1, 2 :: cint] \<le> length (fresh (boot [1, 2, 3]))" by (simp add: boot_def)
  have h3: "length [2, 1, 2 :: cint] < 4" by simp
  have h4: "distinct (map fst (fresh (boot [5, 4])))" by (simp add: boot_def)
  have h5: "length [1, 2 :: cint] \<le> length (fresh (boot [5, 4]))" by (simp add: boot_def)
  have h6: "length [1, 2 :: cint] < 3" by simp
  show ?thesis by (rule conjI[OF h0 inorder_depends_on_set_only[OF h0 h1 h2 h3 h4 h5 h6]])
qed

end
